theory Spec2Isabelle
  imports Complex_Main "HOL-Library.Multiset"
begin

section \<open>Text\<close>

text \<open>
  Python strings are sequences of Unicode code points, and so are the file names the
  scanner reads and the keys of the video dictionary. A code point is a natural number;
  ASCII literals of the source are written through \<open>ustr\<close>.
\<close>

type_synonym ustring = "nat list"

definition ustr :: "string \<Rightarrow> ustring" where
  "ustr s = map of_char s"

text \<open>The fixed cover-video name of \<open>scan_slides\<close>: U+5C01 U+9762 followed by \<open>.mp4\<close>.\<close>

definition cover_name :: ustring where
  "cover_name = [23553, 38754] @ ustr ''.mp4''"

text \<open>
  The regular expressions use \<open>\d\<close>, which on Python strings matches every code point the
  runtime's Unicode database classifies as a decimal digit, and \<open>int\<close> reads the same code
  points by their decimal value. The database belongs to the interpreter, not to the
  repository, so it is a parameter: \<open>dv c\<close> is the decimal value of the code point \<open>c\<close>,
  or \<open>None\<close> when \<open>c\<close> is not a decimal digit. In every version of the database the
  decimal digits below 128 are the ASCII digits with their usual values, which is all the
  theorems below ask of it.
\<close>

type_synonym digit_table = "nat \<Rightarrow> nat option"

text \<open>The smallest table: the ASCII digits and nothing else.\<close>

definition ascii_only :: digit_table where
  "ascii_only c = (if 48 \<le> c \<and> c \<le> 57 then Some (c - 48) else None)"

definition ascii_table :: "digit_table \<Rightarrow> bool" where
  "ascii_table dv = (\<forall>c < 128. dv c = ascii_only c)"

definition is_digit :: "digit_table \<Rightarrow> nat \<Rightarrow> bool" where
  "is_digit dv c = (dv c \<noteq> None)"

text \<open>
  \<open>int(s)\<close> on a run of decimal digits, the only strings the scanner converts. A file name
  is far shorter than the digit count at which recent interpreters refuse the conversion.
\<close>

definition py_int :: "digit_table \<Rightarrow> ustring \<Rightarrow> int" where
  "py_int dv ds = foldl (\<lambda>a c. 10 * a + (case dv c of Some v \<Rightarrow> int v | None \<Rightarrow> 0)) 0 ds"

text \<open>
  A literal followed by \<open>$\<close>: Python's \<open>$\<close> matches at the end of the string and also just
  before a newline that ends the string.
\<close>

definition literal_end :: "ustring \<Rightarrow> ustring \<Rightarrow> bool" where
  "literal_end lit rest = (rest = lit \<or> rest = lit @ [10])"

text \<open>
  \<open>^(\d+)\.png$\<close>, \<open>^(\d+)\.mp4$\<close> and \<open>^(\d+)-(\d+)\.mp4$\<close> under \<open>re.match\<close>. No digit is
  \<open>.\<close> or \<open>-\<close>, so the greedy digit run is the longest prefix of digits. The result is the
  captured group (or pair of groups).
\<close>

definition png_pattern :: "digit_table \<Rightarrow> ustring \<Rightarrow> ustring option" where
  "png_pattern dv s =
     (let ds = takeWhile (is_digit dv) s; rest = dropWhile (is_digit dv) s
      in if ds \<noteq> [] \<and> literal_end (ustr ''.png'') rest then Some ds else None)"

definition mp4_pattern :: "digit_table \<Rightarrow> ustring \<Rightarrow> ustring option" where
  "mp4_pattern dv s =
     (let ds = takeWhile (is_digit dv) s; rest = dropWhile (is_digit dv) s
      in if ds \<noteq> [] \<and> literal_end (ustr ''.mp4'') rest then Some ds else None)"

definition transition_pattern :: "digit_table \<Rightarrow> ustring \<Rightarrow> (ustring \<times> ustring) option" where
  "transition_pattern dv s =
     (let a = takeWhile (is_digit dv) s; rest = dropWhile (is_digit dv) s
      in case rest of
           [] \<Rightarrow> None
         | c # rest' \<Rightarrow>
             (let b = takeWhile (is_digit dv) rest'; rest'' = dropWhile (is_digit dv) rest'
              in if a \<noteq> [] \<and> c = 45 \<and> b \<noteq> [] \<and> literal_end (ustr ''.mp4'') rest''
                 then Some (a, b) else None))"

text \<open>
  \<open>Path.suffix\<close>: with \<open>i\<close> the position of the last \<open>.\<close> of the name, the suffix is the
  name from \<open>i\<close> on when \<open>0 < i < len(name) - 1\<close> and the empty string otherwise.
\<close>

definition suffix :: "ustring \<Rightarrow> ustring" where
  "suffix s =
     (let tail = rev (takeWhile (\<lambda>c. c \<noteq> 46) (rev s));
          front = dropWhile (\<lambda>c. c \<noteq> 46) (rev s)
      in case front of
           [] \<Rightarrow> []
         | dot # stem \<Rightarrow> if stem \<noteq> [] \<and> tail \<noteq> [] then dot # tail else [])"

text \<open>
  \<open>str.lower\<close> is used once, on a suffix that is then compared with \<open>.mp4\<close>. The only code
  points whose lower case is one of \<open>.\<close>, \<open>m\<close>, \<open>p\<close>, \<open>4\<close> are these four and \<open>M\<close>, \<open>P\<close>, so
  lowering the ASCII capitals decides that comparison exactly as the full mapping does.
\<close>

definition lower :: "ustring \<Rightarrow> ustring" where
  "lower s = map (\<lambda>c. if 65 \<le> c \<and> c \<le> 90 then c + 32 else c) s"

section \<open>The directory\<close>

text \<open>
  What \<open>iterdir\<close> yields, in its order: a name, and what the name leads to. \<open>is_file\<close>
  holds of a regular file (also through a link), \<open>exists\<close> of everything but a dangling
  link.
\<close>

datatype kind = RegularFile | OtherNode | Dangling

record entry =
  fname :: ustring
  fkind :: kind

definition is_file :: "entry \<Rightarrow> bool" where
  "is_file f = (fkind f = RegularFile)"

definition exists_entry :: "entry \<Rightarrow> bool" where
  "exists_entry f = (fkind f \<noteq> Dangling)"

datatype fs_node = Missing | NotDirectory | Directory "entry list"

datatype py_error = FileNotFoundError | NotADirectoryError

section \<open>scan_slides\<close>

record slide =
  num :: int
  filename :: ustring
  path :: ustring

record catalog =
  cat_slides :: "slide list"
  cat_videos :: "ustring \<rightharpoonup> ustring"
  cat_total :: nat

text \<open>The body of the first loop for one entry: the slide it appends, if any.\<close>

definition png_slide :: "digit_table \<Rightarrow> entry \<Rightarrow> slide option" where
  "png_slide dv f =
     (if is_file f then
        (case png_pattern dv (fname f) of
           Some ds \<Rightarrow> Some \<lparr>num = py_int dv ds, filename = fname f, path = fname f\<rparr>
         | None \<Rightarrow> None)
      else None)"

text \<open>The list \<open>slides\<close> when the first loop ends, in the order of iteration.\<close>

definition collect_slides :: "digit_table \<Rightarrow> entry list \<Rightarrow> slide list" where
  "collect_slides dv d = List.map_filter (png_slide dv) d"

text \<open>\<open>slides.sort(key=lambda x: x['num'])\<close>: Python's sort is stable.\<close>

definition sort_slides :: "slide list \<Rightarrow> slide list" where
  "sort_slides ss = sort_key num ss"

text \<open>The cover check, then the body of the second loop for one entry.\<close>

definition cover_videos :: "entry list \<Rightarrow> (ustring \<rightharpoonup> ustring)" where
  "cover_videos d =
     (if \<exists>f \<in> set d. fname f = cover_name \<and> exists_entry f
      then [ustr ''1'' \<mapsto> cover_name] else Map.empty)"

definition video_step :: "digit_table \<Rightarrow> entry \<Rightarrow> (ustring \<rightharpoonup> ustring) \<Rightarrow> (ustring \<rightharpoonup> ustring)" where
  "video_step dv f vs =
     (if is_file f \<and> lower (suffix (fname f)) = ustr ''.mp4'' then
        (let vs1 = (case mp4_pattern dv (fname f) of
                      Some n \<Rightarrow> vs(n \<mapsto> fname f)
                    | None \<Rightarrow> vs)
         in case transition_pattern dv (fname f) of
              Some (a, b) \<Rightarrow> vs1(a @ ustr ''-'' @ b \<mapsto> fname f)
            | None \<Rightarrow> vs1)
      else vs)"

definition scan_videos :: "digit_table \<Rightarrow> entry list \<Rightarrow> (ustring \<rightharpoonup> ustring)" where
  "scan_videos dv d = fold (video_step dv) d (cover_videos d)"

definition scan_slides :: "digit_table \<Rightarrow> fs_node \<Rightarrow> py_error + catalog" where
  "scan_slides dv node =
     (case node of
        Missing \<Rightarrow> Inl FileNotFoundError
      | NotDirectory \<Rightarrow> Inl NotADirectoryError
      | Directory d \<Rightarrow>
          (let sorted_slides = sort_slides (collect_slides dv d)
           in Inr \<lparr>cat_slides = sorted_slides, cat_videos = scan_videos dv d,
                   cat_total = length sorted_slides\<rparr>))"

section \<open>generate_html and main\<close>

text \<open>
  \<open>generate_html\<close> fills a fixed template. What varies in the document it writes is the
  title, the total shown in the counter, the list of slide paths (\<open>slidesData\<close>) and the
  video dictionary (\<open>videosData\<close>).
\<close>

record document =
  doc_title :: ustring
  doc_total :: nat
  slidesData :: "ustring list"
  videosData :: "ustring \<rightharpoonup> ustring"

definition generate_html :: "catalog \<Rightarrow> ustring \<Rightarrow> document" where
  "generate_html data title =
     \<lparr>doc_title = title, doc_total = cat_total data,
      slidesData = map path (cat_slides data), videosData = cat_videos data\<rparr>"

text \<open>
  \<open>main\<close> after argument parsing: the exit status, and the document written if
  \<open>generate_html\<close> was called. \<open>os.path.exists\<close> holds of everything but a missing path; an
  exception of \<open>scan_slides\<close> is not caught.
\<close>

definition main :: "digit_table \<Rightarrow> fs_node \<Rightarrow> ustring \<Rightarrow> py_error + (int \<times> document option)" where
  "main dv directory title =
     (if directory = Missing then Inr (1, None)
      else case scan_slides dv directory of
             Inl e \<Rightarrow> Inl e
           | Inr data \<Rightarrow>
               if cat_slides data = [] then Inr (1, None)
               else Inr (0, Some (generate_html data title)))"

section \<open>Numbers of the player\<close>

text \<open>\<open>toString\<close> of an integer: its decimal digits, after a minus sign when negative.\<close>

fun decimal :: "nat \<Rightarrow> ustring" where
  "decimal n = (if n < 10 then [48 + n] else decimal (n div 10) @ [48 + n mod 10])"

declare decimal.simps [simp del]

definition toString :: "int \<Rightarrow> ustring" where
  "toString i = (if i < 0 then 45 # decimal (nat (- i)) else decimal (nat i))"

text \<open>
  The progress value is computed in double precision. Every double is a rational, and the
  result of a division or a multiplication is the exact result rounded to 53 significant
  bits, ties to even. \<open>to_double\<close> is that rounding for values whose magnitude lies in the
  normal range, where the quotient and the product of the progress computation lie.
\<close>

function bitlen :: "int \<Rightarrow> nat" where
  "bitlen i = (if i \<le> 0 then 0 else Suc (bitlen (i div 2)))"
  by pat_completeness auto
termination
  by (relation "measure nat") auto

declare bitlen.simps [simp del]

definition pow2 :: "int \<Rightarrow> rat" where
  "pow2 e = (if 0 \<le> e then 2 ^ nat e else 1 / 2 ^ nat (- e))"

definition ilog2 :: "rat \<Rightarrow> int" where
  "ilog2 x =
     (let (p, q) = quotient_of x;
          e = int (bitlen p) - int (bitlen q)
      in if pow2 e \<le> x then e else e - 1)"

definition round_half_even :: "rat \<Rightarrow> int" where
  "round_half_even x =
     (let f = \<lfloor>x\<rfloor>; d = x - of_int f
      in if d < 1 / 2 then f else if 1 / 2 < d then f + 1 else if even f then f else f + 1)"

definition to_double :: "rat \<Rightarrow> rat" where
  "to_double x =
     (if x = 0 then 0
      else if x < 0 then - (of_int (round_half_even (- x / pow2 (ilog2 (- x) - 52))) * pow2 (ilog2 (- x) - 52))
      else of_int (round_half_even (x / pow2 (ilog2 x - 52))) * pow2 (ilog2 x - 52))"

text \<open>
  \<open>((this.currentSlide + 1) / this.slides.length) * 100\<close>. With no slides the quotient is
  not a finite number and there is no width to speak of.
\<close>

definition progress :: "int \<Rightarrow> nat \<Rightarrow> rat option" where
  "progress cur len =
     (if len = 0 then None
      else Some (to_double (to_double (of_int (cur + 1) / of_nat len) * 100)))"

section \<open>SlideShowPlayer\<close>

text \<open>
  The fields of the class, and of the page what the methods read and write: which image
  and thumbnail elements carry the class \<open>active\<close> (by index; \<open>init\<close> creates one of each per
  slide), the video element (its class, source, loop flag, paused flag and whether
  \<open>playVideo\<close> has installed its two callbacks), the loading indicator, the counter, the
  progress bar and the two buttons.
\<close>

record player =
  slides :: "ustring list"
  videos :: "ustring \<rightharpoonup> ustring"
  currentSlide :: int
  isVideoPlaying :: bool
  showThumbnails :: bool
  activeImages :: "nat set"
  activeThumbs :: "nat set"
  videoActive :: bool
  videoSrc :: "ustring option"
  videoLoop :: bool
  videoPaused :: bool
  videoCallbacks :: bool
  loadingActive :: bool
  currentIndicator :: int
  progressWidth :: "rat option"
  prevDisabled :: bool
  nextDisabled :: bool
  thumbnailsVisible :: bool

text \<open>
  A handler that runs to its end, or one that stopped at an uncaught \<open>TypeError\<close>; the
  page keeps the state reached at that point.
\<close>

datatype outcome = Done player | Threw player

fun state_of :: "outcome \<Rightarrow> player" where
  "state_of (Done p) = p"
| "state_of (Threw p) = p"

definition in_range :: "int \<Rightarrow> player \<Rightarrow> bool" where
  "in_range index p = (0 \<le> index \<and> index < int (length (slides p)))"

definition updateUI :: "player \<Rightarrow> player" where
  "updateUI p =
     p\<lparr>currentIndicator := currentSlide p + 1,
       progressWidth := progress (currentSlide p) (length (slides p)),
       prevDisabled := (currentSlide p = 0),
       nextDisabled := (currentSlide p = int (length (slides p)) - 1),
       activeThumbs := (if in_range (currentSlide p) p then {nat (currentSlide p)} else {})\<rparr>"

definition showSlide :: "int \<Rightarrow> player \<Rightarrow> player" where
  "showSlide index p =
     (if index < 0 \<or> int (length (slides p)) \<le> index then p
      else updateUI
             (p\<lparr>currentSlide := index, isVideoPlaying := False,
                activeImages := {nat index}, videoActive := False, videoPaused := True\<rparr>))"

text \<open>
  \<open>playVideo\<close>: \<open>imageElements[this.currentSlide]\<close> is undefined when the index is not one of
  an image, and removing a class from it throws after the loading indicator was shown.
  Assigning \<open>src\<close> starts a load, which leaves the element paused.
\<close>

definition playVideo :: "ustring \<Rightarrow> player \<Rightarrow> outcome" where
  "playVideo videoPath p =
     (let p1 = p\<lparr>loadingActive := True\<rparr>
      in if \<not> in_range (currentSlide p1) p1 then Threw p1
         else Done
           (p1\<lparr>activeImages := activeImages p1 - {nat (currentSlide p1)},
               videoSrc := Some videoPath, videoPaused := True, videoActive := True,
               videoLoop := (currentSlide p1 = 0), videoCallbacks := True\<rparr>))"

definition onloadeddata :: "player \<Rightarrow> player" where
  "onloadeddata p = p\<lparr>loadingActive := False, videoPaused := False, isVideoPlaying := True\<rparr>"

definition onerror :: "player \<Rightarrow> player" where
  "onerror p = (let p1 = p\<lparr>loadingActive := False\<rparr> in showSlide (currentSlide p1) p1)"

definition toggleVideo :: "player \<Rightarrow> player" where
  "toggleVideo p = (if videoPaused p then p\<lparr>videoPaused := False\<rparr> else p\<lparr>videoPaused := True\<rparr>)"

definition onVideoEnded :: "player \<Rightarrow> player" where
  "onVideoEnded p = (let p1 = p\<lparr>isVideoPlaying := False\<rparr> in showSlide (currentSlide p1) p1)"

definition cancelVideo :: "player \<Rightarrow> player" where
  "cancelVideo p = (if isVideoPlaying p then p\<lparr>videoPaused := True, isVideoPlaying := False\<rparr> else p)"

definition nextSlide :: "player \<Rightarrow> player" where
  "nextSlide p =
     (let p1 = cancelVideo p
      in if currentSlide p1 < int (length (slides p1)) - 1
         then showSlide (currentSlide p1 + 1) p1 else p1)"

definition previousSlide :: "player \<Rightarrow> player" where
  "previousSlide p =
     (let p1 = cancelVideo p
      in if 0 < currentSlide p1 then showSlide (currentSlide p1 - 1) p1 else p1)"

definition goToSlide :: "int \<Rightarrow> player \<Rightarrow> player" where
  "goToSlide index p = showSlide index (cancelVideo p)"

text \<open>A value of the video dictionary is a string; it is truthy when it is not empty.\<close>

definition truthy :: "ustring option \<Rightarrow> bool" where
  "truthy v = (case v of None \<Rightarrow> False | Some s \<Rightarrow> s \<noteq> [])"

definition onSlideClick :: "player \<Rightarrow> outcome" where
  "onSlideClick p =
     (let slideNum = toString (currentSlide p + 1)
      in if isVideoPlaying p then Done (toggleVideo p)
         else if truthy (videos p slideNum) then playVideo (the (videos p slideNum)) p
         else Done (nextSlide p))"

definition toggleThumbnails :: "player \<Rightarrow> player" where
  "toggleThumbnails p =
     (let p1 = p\<lparr>showThumbnails := \<not> showThumbnails p\<rparr>
      in p1\<lparr>thumbnailsVisible := showThumbnails p1\<rparr>)"

text \<open>The constructor followed by \<open>init\<close>, which ends with \<open>showSlide(0)\<close>.\<close>

definition new_player :: "ustring list \<Rightarrow> (ustring \<rightharpoonup> ustring) \<Rightarrow> player" where
  "new_player sd vd =
     showSlide 0
       \<lparr>slides = sd, videos = vd, currentSlide = 0, isVideoPlaying = False,
        showThumbnails = False, activeImages = {}, activeThumbs = {}, videoActive = False,
        videoSrc = None, videoLoop = False, videoPaused = True, videoCallbacks = False,
        loadingActive = False, currentIndicator = 1, progressWidth = None,
        prevDisabled = False, nextDisabled = False, thumbnailsVisible = False\<rparr>"

text \<open>
  The events the page delivers and the handler bound to each. A click on an image and the
  space bar are the primary action; the arrow keys, the buttons and a swipe are next and
  previous; a thumbnail jumps to its index; the video element reports a click, the end of
  playback, loaded data and a load error (the last two reach a callback only once
  \<open>playVideo\<close> has installed it). Toggling full screen acts on the document alone and is
  left out.
\<close>

datatype event =
  PrimaryAction | VideoClick | Next | Previous | JumpTo int | KeyHome | KeyEnd
  | ToggleThumbs | KeyEscape | VideoEnded | LoadedData | LoadError

fun handle :: "event \<Rightarrow> player \<Rightarrow> outcome" where
  "handle PrimaryAction p = onSlideClick p"
| "handle VideoClick p = Done (toggleVideo p)"
| "handle Next p = Done (nextSlide p)"
| "handle Previous p = Done (previousSlide p)"
| "handle (JumpTo index) p = Done (goToSlide index p)"
| "handle KeyHome p = Done (goToSlide 0 p)"
| "handle KeyEnd p = Done (goToSlide (int (length (slides p)) - 1) p)"
| "handle ToggleThumbs p = Done (toggleThumbnails p)"
| "handle KeyEscape p = Done (if showThumbnails p then toggleThumbnails p else p)"
| "handle VideoEnded p = Done (onVideoEnded p)"
| "handle LoadedData p = Done (if videoCallbacks p then onloadeddata p else p)"
| "handle LoadError p = Done (if videoCallbacks p then onerror p else p)"

text \<open>The state after a sequence of events, from a given state.\<close>

fun run :: "event list \<Rightarrow> player \<Rightarrow> player" where
  "run [] p = p"
| "run (e # es) p = run es (state_of (handle e p))"

section \<open>States of the player\<close>

text \<open>
  The two states the specification speaks of, read off the fields. In \<open>ShowingImage(i)\<close>
  the image of slide \<open>i\<close> is the one displayed and no video is playing. In
  \<open>PlayingVideo(i)\<close> the video element is displayed in place of the image of slide \<open>i\<close>,
  with the callbacks of \<open>playVideo\<close> installed: the video is loading (the playing flag
  still unset) or playing.
\<close>

definition showing_image :: "int \<Rightarrow> player \<Rightarrow> bool" where
  "showing_image i p =
     (in_range i p \<and> currentSlide p = i \<and> \<not> isVideoPlaying p \<and> activeImages p = {nat i}
      \<and> \<not> videoActive p \<and> videoPaused p)"

definition playing_video :: "int \<Rightarrow> player \<Rightarrow> bool" where
  "playing_video i p =
     (in_range i p \<and> currentSlide p = i \<and> videoActive p \<and> activeImages p = {}
      \<and> videoCallbacks p \<and> videoSrc p \<noteq> None)"

text \<open>What \<open>updateUI\<close> leaves behind, as a property of a state: the indicators agree with
  the current index, which is the index of a slide.\<close>

definition ui_consistent :: "player \<Rightarrow> bool" where
  "ui_consistent p =
     (in_range (currentSlide p) p
      \<and> currentIndicator p = currentSlide p + 1
      \<and> progressWidth p = progress (currentSlide p) (length (slides p))
      \<and> prevDisabled p = (currentSlide p = 0)
      \<and> nextDisabled p = (currentSlide p = int (length (slides p)) - 1)
      \<and> activeThumbs p = {nat (currentSlide p)})"

text \<open>The catalog of the specification's example: three slides and the cover video.\<close>

definition example_player :: player where
  "example_player =
     new_player [ustr ''1.png'', ustr ''2.png'', ustr ''3.png''] [ustr ''1'' \<mapsto> cover_name]"

text \<open>Directories for the examples: regular files with the given names, in this order.\<close>

definition files :: "ustring list \<Rightarrow> entry list" where
  "files names = map (\<lambda>n. \<lparr>fname = n, fkind = RegularFile\<rparr>) names"

definition cover_dir :: "entry list" where
  "cover_dir = files [ustr ''2.png'', cover_name, ustr ''1.png'', ustr ''2.mp4'']"

definition overwritten_cover_dir :: "entry list" where
  "overwritten_cover_dir = files [cover_name, ustr ''1.mp4'']"

definition no_slides_dir :: "entry list" where
  "no_slides_dir = files [ustr ''notes.txt'', ustr ''1.jpg'', ustr ''a1.png'', cover_name]"

text \<open>
  The file name \<open>k.png\<close> with \<open>k\<close> in decimal, the slide \<open>scan_slides\<close> makes of it, and the
  slide it makes of any matching name; a regular file with a matching name.
\<close>

definition png_name :: "nat \<Rightarrow> ustring" where
  "png_name k = decimal k @ ustr ''.png''"

definition numbered_slide :: "nat \<Rightarrow> slide" where
  "numbered_slide k = \<lparr>num = int k, filename = png_name k, path = png_name k\<rparr>"

definition slide_of_name :: "digit_table \<Rightarrow> ustring \<Rightarrow> slide" where
  "slide_of_name dv n = \<lparr>num = py_int dv (takeWhile (is_digit dv) n), filename = n, path = n\<rparr>"

definition png_file :: "digit_table \<Rightarrow> entry \<Rightarrow> bool" where
  "png_file dv f = (is_file f \<and> png_pattern dv (fname f) \<noteq> None)"

text \<open>Ten slides and three other files, listed in lexicographic order of the names.\<close>

definition lexicographic_dir :: "entry list" where
  "lexicographic_dir =
     files [ustr ''1.png'', ustr ''10.png'', ustr ''2.png'', ustr ''3.png'', ustr ''notes.txt'',
            ustr ''4.png'', ustr ''5.png'', ustr ''6.png'', ustr ''7.PNG'', ustr ''7.png'',
            ustr ''8.png'', ustr ''9.png'', cover_name]"

text \<open>The names \<open>2.png\<close> and \<open>02.png\<close> in a directory, in either order.\<close>

definition leading_zero_dir :: "entry list" where
  "leading_zero_dir = files [ustr ''02.png'', ustr ''1.png'', ustr ''2.png'']"

definition leading_zero_dir_rev :: "entry list" where
  "leading_zero_dir_rev = files [ustr ''2.png'', ustr ''1.png'', ustr ''02.png'']"

section \<open>The player: primary action, video events, jumps\<close>

lemmas player_defs =
  showing_image_def playing_video_def in_range_def showSlide_def updateUI_def
  cancelVideo_def nextSlide_def previousSlide_def goToSlide_def onVideoEnded_def
  onloadeddata_def onerror_def playVideo_def onSlideClick_def toggleVideo_def
  toggleThumbnails_def truthy_def

lemmas example_defs =
  example_player_def new_player_def cover_name_def ustr_def toString_def decimal.simps

lemma showSlide_showing_image: "in_range i p \<Longrightarrow> showing_image i (showSlide i p)"
  by (auto simp: player_defs)

text \<open>
  Claim C1. In a state \<open>ShowingImage(i)\<close> whose video dictionary has no entry for the key
  \<open>(i + 1).toString()\<close>, the primary action (\<open>onSlideClick\<close>) yields exactly the state that
  \<open>nextSlide\<close> yields: \<open>ShowingImage(i + 1)\<close> when \<open>i + 1\<close> is the index of a slide, and the
  unchanged state when \<open>i\<close> is the last index.
\<close>

theorem C1_primary_action_is_next:
  assumes "showing_image i p" and "videos p (toString (i + 1)) = None"
  shows "onSlideClick p = Done (nextSlide p)
     \<and> (i + 1 < int (length (slides p)) \<longrightarrow>
          showing_image (i + 1) (nextSlide p) \<and> currentSlide (nextSlide p) = i + 1)
     \<and> (i = int (length (slides p)) - 1 \<longrightarrow> nextSlide p = p)"
  using assms by (auto simp: player_defs)

theorem C1_primary_action_is_next_witness:
  "showing_image 1 (nextSlide example_player)
   \<and> videos (nextSlide example_player) (toString (1 + 1)) = None
   \<and> onSlideClick (nextSlide example_player) = Done (nextSlide (nextSlide example_player))
   \<and> currentSlide (nextSlide (nextSlide example_player)) = 2
   \<and> showing_image 2 (nextSlide (nextSlide example_player))
   \<and> videos (nextSlide (nextSlide example_player)) (toString (2 + 1)) = None
   \<and> onSlideClick (nextSlide (nextSlide example_player))
       = Done (nextSlide (nextSlide example_player))"
proof -
  let ?p = "nextSlide example_player"
  let ?q = "nextSlide ?p"
  have len: "length (slides ?p) = 3" "length (slides ?q) = 3"
    by (simp_all add: example_defs player_defs)
  have a: "showing_image 1 ?p"
    by (simp add: example_defs player_defs)
  have b: "videos ?p (toString (1 + 1)) = None"
    by (simp add: example_defs player_defs)
  have c: "showing_image 2 ?q"
    by (simp add: example_defs player_defs)
  have d: "videos ?q (toString (2 + 1)) = None"
    by (simp add: example_defs player_defs)
  from C1_primary_action_is_next [OF a b] len
  have e: "onSlideClick ?p = Done ?q" "currentSlide ?q = 2"
    by simp_all
  from C1_primary_action_is_next [OF c d] len
  have f: "onSlideClick ?q = Done (nextSlide ?q)" "nextSlide ?q = ?q"
    by simp_all
  from a b c d e f show ?thesis by simp
qed

text \<open>
  The values of the video dictionary that \<open>scan_slides\<close> builds are names of directory
  entries that matched a pattern, or the cover name: none is the empty string, so each is
  truthy for the player.
\<close>

lemma mp4_pattern_name_nonempty: "mp4_pattern dv s = Some ds \<Longrightarrow> s \<noteq> []"
  by (auto simp: mp4_pattern_def Let_def split: if_splits)

lemma transition_pattern_name_nonempty: "transition_pattern dv s = Some ab \<Longrightarrow> s \<noteq> []"
  by (auto simp: transition_pattern_def Let_def split: list.splits if_splits)

lemma video_step_nonempty:
  assumes "\<forall>k v. vs k = Some v \<longrightarrow> v \<noteq> []"
  shows "\<forall>k v. video_step dv f vs k = Some v \<longrightarrow> v \<noteq> []"
  using assms mp4_pattern_name_nonempty [of dv "fname f"]
    transition_pattern_name_nonempty [of dv "fname f"]
  by (auto simp: video_step_def Let_def split: option.splits if_splits)

lemma fold_video_step_nonempty:
  "\<forall>k v. vs k = Some v \<longrightarrow> v \<noteq> [] \<Longrightarrow>
     \<forall>k v. fold (video_step dv) d vs k = Some v \<longrightarrow> v \<noteq> []"
proof (induction d arbitrary: vs)
  case Nil
  then show ?case by simp
next
  case (Cons f d)
  from video_step_nonempty [OF Cons.prems, of dv f] Cons.IH [of "video_step dv f vs"]
  show ?case by simp
qed

lemma scan_videos_nonempty: "scan_videos dv d k = Some v \<Longrightarrow> v \<noteq> []"
proof -
  have "\<forall>k v. cover_videos d k = Some v \<longrightarrow> v \<noteq> []"
    by (auto simp: cover_videos_def cover_name_def split: if_splits)
  from fold_video_step_nonempty [OF this, of dv d] show "scan_videos dv d k = Some v \<Longrightarrow> v \<noteq> []"
    by (simp add: scan_videos_def)
qed

text \<open>
  Claim C2. In a state \<open>ShowingImage(i)\<close> whose video dictionary binds the key
  \<open>(i + 1).toString()\<close> to a video (a file name, so not the empty string), the primary
  action leads to \<open>PlayingVideo(i)\<close> with the same current index and that video as source;
  the video-ended event then leads back to \<open>ShowingImage(i)\<close>, whether it comes before or
  after the loaded-data callback has started playback.
\<close>

theorem C2_play_then_ended_round_trip:
  assumes "showing_image i p" and "videos p (toString (i + 1)) = Some v" and "v \<noteq> []"
  shows "\<exists>p'. onSlideClick p = Done p' \<and> playing_video i p' \<and> currentSlide p' = i
           \<and> videoSrc p' = Some v
           \<and> showing_image i (onVideoEnded p')
           \<and> playing_video i (onloadeddata p') \<and> isVideoPlaying (onloadeddata p')
           \<and> showing_image i (onVideoEnded (onloadeddata p'))"
  using assms by (auto simp: player_defs Let_def)

theorem C2_play_then_ended_round_trip_witness:
  "showing_image 0 example_player
   \<and> videos example_player (toString (0 + 1)) = Some cover_name
   \<and> cover_name \<noteq> []
   \<and> (\<exists>p'. onSlideClick example_player = Done p' \<and> playing_video 0 p' \<and> currentSlide p' = 0
           \<and> videoSrc p' = Some cover_name
           \<and> showing_image 0 (onVideoEnded p')
           \<and> playing_video 0 (onloadeddata p') \<and> isVideoPlaying (onloadeddata p')
           \<and> showing_image 0 (onVideoEnded (onloadeddata p')))"
proof -
  have a: "showing_image 0 example_player"
    by (simp add: example_defs player_defs)
  have b: "videos example_player (toString (0 + 1)) = Some cover_name"
    by (simp add: example_defs player_defs)
  have c: "cover_name \<noteq> []"
    by (simp add: cover_name_def)
  from C2_play_then_ended_round_trip [OF a b c] a b c show ?thesis by blast
qed

text \<open>
  Claim C6, as the code has it. A jump to an index that is not the index of a slide raises
  nothing and does what cancelling the video does: the current index, the thumbnail flag
  and what is displayed (the active image, the visibility of the video element) are
  unchanged, and with no video playing the whole state is unchanged. With a video playing
  the jump still pauses it and clears the playing flag.
\<close>

theorem C6_jump_out_of_range:
  assumes "\<not> in_range index p"
  shows "handle (JumpTo index) p = Done (cancelVideo p)
     \<and> currentSlide (goToSlide index p) = currentSlide p
     \<and> showThumbnails (goToSlide index p) = showThumbnails p
     \<and> activeImages (goToSlide index p) = activeImages p
     \<and> videoActive (goToSlide index p) = videoActive p
     \<and> \<not> isVideoPlaying (goToSlide index p)
     \<and> (isVideoPlaying p \<longrightarrow> videoPaused (goToSlide index p))
     \<and> (\<not> isVideoPlaying p \<longrightarrow> goToSlide index p = p)"
  using assms by (auto simp: player_defs)

theorem C6_jump_out_of_range_witness:
  "\<not> in_range 3 (run [PrimaryAction, LoadedData] example_player)
   \<and> isVideoPlaying (run [PrimaryAction, LoadedData] example_player)
   \<and> currentSlide (goToSlide 3 (run [PrimaryAction, LoadedData] example_player)) = 0
   \<and> videoPaused (goToSlide 3 (run [PrimaryAction, LoadedData] example_player))
   \<and> \<not> in_range (- 1) example_player \<and> \<not> isVideoPlaying example_player
   \<and> goToSlide (- 1) example_player = example_player"
proof -
  let ?p = "run [PrimaryAction, LoadedData] example_player"
  have a: "\<not> in_range 3 ?p" "isVideoPlaying ?p" "currentSlide ?p = 0"
    by (simp_all add: example_defs player_defs)
  have b: "\<not> in_range (- 1) example_player" "\<not> isVideoPlaying example_player"
    by (simp_all add: example_defs player_defs)
  from C6_jump_out_of_range [OF a(1)] a
  have c: "currentSlide (goToSlide 3 ?p) = 0" "videoPaused (goToSlide 3 ?p)"
    by (auto simp del: run.simps handle.simps)
  from C6_jump_out_of_range [OF b(1)] b
  have d: "goToSlide (- 1) example_player = example_player"
    by blast
  from a b c d show ?thesis by simp
qed

text \<open>
  The claim as written fails: after the primary action and the loaded-data callback the
  cover video is playing, and a jump to \<open>-1\<close> from there changes the state (the playing
  flag is cleared).
\<close>

theorem C6_jump_while_playing_counterexample:
  "isVideoPlaying (run [PrimaryAction, LoadedData] example_player)
   \<and> \<not> in_range (- 1) (run [PrimaryAction, LoadedData] example_player)
   \<and> goToSlide (- 1) (run [PrimaryAction, LoadedData] example_player)
       \<noteq> run [PrimaryAction, LoadedData] example_player
   \<and> \<not> isVideoPlaying (goToSlide (- 1) (run [PrimaryAction, LoadedData] example_player))"
  by (simp add: example_defs player_defs)

text \<open>
  Claim C7. In a state \<open>PlayingVideo(i)\<close> a load error of the video reaches the callback of
  \<open>playVideo\<close>, which ends without throwing in \<open>ShowingImage(i)\<close> at the same index, the
  loading indicator cleared.
\<close>

theorem C7_load_error_reverts_to_image:
  assumes "playing_video i p"
  shows "\<exists>p'. handle LoadError p = Done p' \<and> showing_image i p' \<and> currentSlide p' = i
            \<and> \<not> loadingActive p'"
  using assms by (auto simp: player_defs Let_def)

theorem C7_load_error_reverts_to_image_witness:
  "playing_video 0 (run [PrimaryAction] example_player)
   \<and> loadingActive (run [PrimaryAction] example_player)
   \<and> (\<exists>p'. handle LoadError (run [PrimaryAction] example_player) = Done p'
          \<and> showing_image 0 p' \<and> currentSlide p' = 0 \<and> \<not> loadingActive p')"
proof -
  have a: "playing_video 0 (run [PrimaryAction] example_player)"
    by (simp add: example_defs player_defs)
  have b: "loadingActive (run [PrimaryAction] example_player)"
    by (simp add: example_defs player_defs)
  from C7_load_error_reverts_to_image [OF a] a b show ?thesis by blast
qed

section \<open>The player: what every reachable state satisfies\<close>

lemma showSlide_out_of_range: "\<not> in_range i p \<Longrightarrow> showSlide i p = p"
  by (auto simp: showSlide_def in_range_def)

lemma showSlide_consistent: "in_range i p \<Longrightarrow> ui_consistent (showSlide i p)"
  by (auto simp: ui_consistent_def showSlide_def updateUI_def in_range_def)

text \<open>Every handler ends normally in a consistent state and keeps the catalog.\<close>

lemma handle_consistent:
  assumes "ui_consistent p"
  shows "\<exists>p'. handle e p = Done p' \<and> ui_consistent p' \<and> slides p' = slides p
           \<and> videos p' = videos p"
proof (cases e)
  case PrimaryAction
  with assms show ?thesis
    by (auto simp: ui_consistent_def player_defs Let_def)
next
  case (JumpTo index)
  with assms show ?thesis
    by (auto simp: ui_consistent_def player_defs Let_def)
qed (use assms in \<open>auto simp: ui_consistent_def player_defs Let_def\<close>)

lemma run_consistent:
  "ui_consistent p \<Longrightarrow>
     ui_consistent (run es p) \<and> slides (run es p) = slides p \<and> videos (run es p) = videos p"
proof (induction es arbitrary: p)
  case Nil
  then show ?case by simp
next
  case (Cons e es)
  from handle_consistent [OF Cons.prems, of e] obtain p' where
    h: "handle e p = Done p'" "ui_consistent p'" "slides p' = slides p" "videos p' = videos p"
    by blast
  with Cons.IH [of p'] show ?case by simp
qed

lemma new_player_consistent:
  "sd \<noteq> [] \<Longrightarrow> ui_consistent (new_player sd vd) \<and> slides (new_player sd vd) = sd
     \<and> videos (new_player sd vd) = vd \<and> showing_image 0 (new_player sd vd)"
  by (auto simp: new_player_def ui_consistent_def player_defs)

text \<open>
  Claim C4. For a catalog with at least one slide the player starts at index 0, and after
  any finite sequence of events (next, previous, jumps to any integer, the primary action,
  the video events and the rest) the current index is the index of a slide, the previous
  button is disabled exactly at index 0 and the next button exactly at the last index;
  \<open>nextSlide\<close> at the last index and \<open>previousSlide\<close> at index 0 leave the index where it
  is.
\<close>

theorem C4_index_stays_in_range:
  assumes "sd \<noteq> []"
  shows "currentSlide (new_player sd vd) = 0
     \<and> 0 \<le> currentSlide (run es (new_player sd vd))
     \<and> currentSlide (run es (new_player sd vd)) \<le> int (length sd) - 1
     \<and> prevDisabled (run es (new_player sd vd)) = (currentSlide (run es (new_player sd vd)) = 0)
     \<and> nextDisabled (run es (new_player sd vd))
         = (currentSlide (run es (new_player sd vd)) = int (length sd) - 1)
     \<and> (currentSlide (run es (new_player sd vd)) = int (length sd) - 1 \<longrightarrow>
          currentSlide (nextSlide (run es (new_player sd vd))) = int (length sd) - 1)
     \<and> (currentSlide (run es (new_player sd vd)) = 0 \<longrightarrow>
          currentSlide (previousSlide (run es (new_player sd vd))) = 0)"
proof -
  let ?p = "run es (new_player sd vd)"
  from new_player_consistent [OF assms, of vd]
  have init: "ui_consistent (new_player sd vd)" "slides (new_player sd vd) = sd"
    "showing_image 0 (new_player sd vd)"
    by simp_all
  from run_consistent [OF init(1), of es] init(2)
  have inv: "ui_consistent ?p" "slides ?p = sd"
    by simp_all
  have zero: "currentSlide (new_player sd vd) = 0"
    using init(3) by (simp add: showing_image_def)
  have rng: "0 \<le> currentSlide ?p" "currentSlide ?p \<le> int (length sd) - 1"
    using inv by (auto simp: ui_consistent_def in_range_def)
  have btn: "prevDisabled ?p = (currentSlide ?p = 0)"
    "nextDisabled ?p = (currentSlide ?p = int (length sd) - 1)"
    using inv by (auto simp: ui_consistent_def)
  have nxt: "currentSlide ?p = int (length sd) - 1 \<longrightarrow>
      currentSlide (nextSlide ?p) = int (length sd) - 1"
    using inv(2) by (auto simp: nextSlide_def cancelVideo_def)
  have prv: "currentSlide ?p = 0 \<longrightarrow> currentSlide (previousSlide ?p) = 0"
    by (auto simp: previousSlide_def cancelVideo_def)
  from zero rng btn nxt prv show ?thesis by blast
qed

theorem C4_index_stays_in_range_witness:
  "[ustr ''1.png'', ustr ''2.png'', ustr ''3.png''] \<noteq> []
   \<and> currentSlide (run [PrimaryAction, LoadedData, VideoEnded, Next, PrimaryAction, Next]
        example_player) = 2
   \<and> nextDisabled (run [PrimaryAction, LoadedData, VideoEnded, Next, PrimaryAction, Next]
        example_player)
   \<and> \<not> prevDisabled (run [PrimaryAction, LoadedData, VideoEnded, Next, PrimaryAction, Next]
        example_player)
   \<and> currentSlide (nextSlide (run [PrimaryAction, LoadedData, VideoEnded, Next, PrimaryAction, Next]
        example_player)) = 2
   \<and> currentSlide (run [Next, Previous, JumpTo 7, Previous] example_player) = 0
   \<and> prevDisabled (run [Next, Previous, JumpTo 7, Previous] example_player)
   \<and> currentSlide (previousSlide (run [Next, Previous, JumpTo 7, Previous] example_player)) = 0"
proof -
  let ?sd = "[ustr ''1.png'', ustr ''2.png'', ustr ''3.png'']"
  let ?vd = "[ustr ''1'' \<mapsto> cover_name]"
  let ?es = "[PrimaryAction, LoadedData, VideoEnded, Next, PrimaryAction, Next]"
  let ?fs = "[Next, Previous, JumpTo 7, Previous]"
  have ne: "?sd \<noteq> []" by simp
  have a: "currentSlide (run ?es (new_player ?sd ?vd)) = 2"
    by (simp add: example_defs player_defs)
  have b: "currentSlide (run ?fs (new_player ?sd ?vd)) = 0"
    by (simp add: example_defs player_defs)
  from C4_index_stays_in_range [OF ne, of ?vd ?es] C4_index_stays_in_range [OF ne, of ?vd ?fs]
    a b ne
  show ?thesis
    by (simp add: example_player_def del: run.simps)
qed

section \<open>The scanner: no images, and the cover video\<close>

lemma collect_slides_empty:
  assumes "\<forall>f \<in> set d. is_file f \<longrightarrow> png_pattern dv (fname f) = None"
  shows "collect_slides dv d = []"
proof -
  have "\<forall>f \<in> set d. png_slide dv f = None"
    using assms by (auto simp: png_slide_def)
  then show ?thesis
    by (simp add: collect_slides_def map_filter_def filter_empty_conv)
qed

text \<open>
  Claim C8. When no regular file of the directory has a name matching the image pattern
  (in particular when no name matches at all), \<open>scan_slides\<close> returns normally a catalog
  with an empty slide list and total 0, and \<open>main\<close> returns the failure status 1 without
  calling \<open>generate_html\<close>: no document is written.
\<close>

theorem C8_no_images_no_document:
  assumes "\<forall>f \<in> set d. is_file f \<longrightarrow> png_pattern dv (fname f) = None"
  shows "scan_slides dv (Directory d)
           = Inr \<lparr>cat_slides = [], cat_videos = scan_videos dv d, cat_total = 0\<rparr>
     \<and> main dv (Directory d) title = Inr (1, None)"
  using collect_slides_empty [OF assms]
  by (simp add: scan_slides_def main_def sort_slides_def)

theorem C8_no_images_no_document_witness:
  "filter (png_file ascii_only) no_slides_dir = []
   \<and> scan_slides ascii_only (Directory no_slides_dir)
        = Inr \<lparr>cat_slides = [], cat_videos = scan_videos ascii_only no_slides_dir, cat_total = 0\<rparr>
   \<and> main ascii_only (Directory no_slides_dir) (ustr ''title'') = Inr (1, None)"
proof -
  have a: "\<forall>f \<in> set no_slides_dir. is_file f \<longrightarrow> png_pattern ascii_only (fname f) = None"
    by (simp add: no_slides_dir_def files_def png_pattern_def is_digit_def ascii_only_def
        literal_end_def ustr_def cover_name_def)
  then have b: "filter (png_file ascii_only) no_slides_dir = []"
    by (simp add: filter_empty_conv png_file_def)
  from C8_no_images_no_document [OF a, of "ustr ''title''"] b show ?thesis by simp
qed

lemma mp4_pattern_split:
  assumes "mp4_pattern dv s = Some ds"
  shows "s = ds @ ustr ''.mp4'' \<or> s = ds @ ustr ''.mp4'' @ [10]"
proof -
  from assms have "ds = takeWhile (is_digit dv) s"
    and "literal_end (ustr ''.mp4'') (dropWhile (is_digit dv) s)"
    by (auto simp: mp4_pattern_def Let_def split: if_splits)
  then have "dropWhile (is_digit dv) s = ustr ''.mp4''
      \<or> dropWhile (is_digit dv) s = ustr ''.mp4'' @ [10]"
    and "s = ds @ dropWhile (is_digit dv) s"
    by (simp_all add: literal_end_def)
  then show ?thesis by metis
qed

lemma transition_key_long:
  assumes "transition_pattern dv s = Some (a, b)"
  shows "a @ ustr ''-'' @ b \<noteq> ustr ''1''"
proof -
  from assms have "a \<noteq> []"
    by (auto simp: transition_pattern_def Let_def split: list.splits if_splits)
  then show ?thesis
    by (cases a) (auto simp: ustr_def)
qed

lemma video_step_keeps_cover:
  assumes "is_file f \<longrightarrow> fname f \<noteq> ustr ''1.mp4''"
  shows "video_step dv f vs (ustr ''1'') = vs (ustr ''1'')"
proof (cases "is_file f \<and> lower (suffix (fname f)) = ustr ''.mp4''")
  case False
  then show ?thesis by (auto simp: video_step_def)
next
  case True
  have no1: "mp4_pattern dv (fname f) \<noteq> Some (ustr ''1'')"
  proof
    assume m: "mp4_pattern dv (fname f) = Some (ustr ''1'')"
    from mp4_pattern_split [OF m] have "fname f = ustr ''1.mp4'' \<or> fname f = ustr ''1.mp4'' @ [10]"
      by (simp add: ustr_def)
    moreover have "lower (suffix (ustr ''1.mp4'' @ [10])) \<noteq> ustr ''.mp4''"
      by (simp add: suffix_def lower_def ustr_def)
    ultimately show False using True assms by auto
  qed
  show ?thesis
    using True no1 transition_key_long [of dv "fname f"]
    by (auto simp: video_step_def Let_def split: option.splits)
qed

lemma fold_video_step_keeps_cover:
  assumes "\<forall>f \<in> set d. is_file f \<longrightarrow> fname f \<noteq> ustr ''1.mp4''"
  shows "fold (video_step dv) d vs (ustr ''1'') = vs (ustr ''1'')"
  using assms
proof (induction d arbitrary: vs)
  case Nil
  then show ?case by simp
next
  case (Cons f d)
  then show ?case by (simp add: video_step_keeps_cover)
qed

text \<open>
  Claim C5, as the code has it. If the cover video is present in the directory and no
  regular file of the directory is named \<open>1.mp4\<close>, the catalog binds the key \<open>1\<close> to the
  cover video. Whatever video \<open>playVideo\<close> is given, at an index that is the index of a
  slide it ends normally with the loop flag set exactly when the current index is 0.
\<close>

theorem C5_cover_binding_and_loop:
  assumes "\<exists>f \<in> set d. fname f = cover_name \<and> exists_entry f"
    and "\<forall>f \<in> set d. is_file f \<longrightarrow> fname f \<noteq> ustr ''1.mp4''"
  shows "(\<exists>c. scan_slides dv (Directory d) = Inr c \<and> cat_videos c (ustr ''1'') = Some cover_name)
     \<and> (in_range (currentSlide p) p \<longrightarrow>
          (\<exists>p'. playVideo v p = Done p' \<and> videoLoop p' = (currentSlide p = 0)))"
proof -
  have "scan_videos dv d (ustr ''1'') = Some cover_name"
    unfolding scan_videos_def
    using fold_video_step_keeps_cover [OF assms(2)] assms(1)
    by (simp add: cover_videos_def)
  then show ?thesis
    by (auto simp: scan_slides_def Let_def playVideo_def in_range_def)
qed

theorem C5_cover_binding_and_loop_witness:
  "(\<exists>f \<in> set cover_dir. fname f = cover_name \<and> exists_entry f)
   \<and> ustr ''1.mp4'' \<notin> fname ` set cover_dir
   \<and> in_range (currentSlide example_player) example_player
   \<and> (\<exists>c. scan_slides ascii_only (Directory cover_dir) = Inr c
          \<and> cat_videos c (ustr ''1'') = Some cover_name)
   \<and> (\<exists>p'. playVideo cover_name example_player = Done p' \<and> videoLoop p')"
proof -
  have a: "\<exists>f \<in> set cover_dir. fname f = cover_name \<and> exists_entry f"
    by (simp add: cover_dir_def files_def exists_entry_def)
  have b: "\<forall>f \<in> set cover_dir. is_file f \<longrightarrow> fname f \<noteq> ustr ''1.mp4''"
    by (simp add: cover_dir_def files_def ustr_def cover_name_def)
  have c: "in_range (currentSlide example_player) example_player"
    "currentSlide example_player = 0"
    by (simp_all add: example_defs player_defs)
  have d: "ustr ''1.mp4'' \<notin> fname ` set cover_dir"
    by (simp add: cover_dir_def files_def ustr_def cover_name_def)
  from C5_cover_binding_and_loop [OF a b, of ascii_only example_player cover_name] a c d
  show ?thesis by simp
qed

text \<open>
  The claim as written fails: with the cover video and a file \<open>1.mp4\<close> in the directory,
  the second loop overwrites the key \<open>1\<close>, which ends bound to \<open>1.mp4\<close>.
\<close>

theorem C5_cover_overwritten_counterexample:
  "set overwritten_cover_dir
     = {\<lparr>fname = cover_name, fkind = RegularFile\<rparr>, \<lparr>fname = ustr ''1.mp4'', fkind = RegularFile\<rparr>}
   \<and> scan_slides ascii_only (Directory overwritten_cover_dir)
       = Inr \<lparr>cat_slides = [], cat_videos = scan_videos ascii_only overwritten_cover_dir,
              cat_total = 0\<rparr>
   \<and> scan_videos ascii_only overwritten_cover_dir (ustr ''1'') = Some (ustr ''1.mp4'')
   \<and> ustr ''1.mp4'' \<noteq> cover_name"
  by (simp add: overwritten_cover_dir_def files_def scan_slides_def collect_slides_def
      map_filter_def png_slide_def png_pattern_def sort_slides_def scan_videos_def
      cover_videos_def video_step_def mp4_pattern_def transition_pattern_def is_file_def
      exists_entry_def is_digit_def ascii_only_def literal_end_def suffix_def lower_def
      ustr_def cover_name_def)

section \<open>The scanner: numbered slides\<close>

lemma ascii_table_digit: "ascii_table dv \<Longrightarrow> k < 10 \<Longrightarrow> dv (48 + k) = Some k"
  by (simp add: ascii_table_def ascii_only_def)

lemma ascii_table_dot: "ascii_table dv \<Longrightarrow> \<not> is_digit dv 46"
  by (simp add: ascii_table_def ascii_only_def is_digit_def)

lemma decimal_digits: "ascii_table dv \<Longrightarrow> c \<in> set (decimal k) \<Longrightarrow> is_digit dv c"
proof (induction k rule: decimal.induct)
  case (1 n)
  show ?case
  proof (cases "n < 10")
    case True
    with 1 show ?thesis
      by (auto simp: decimal.simps [of n] is_digit_def ascii_table_digit)
  next
    case False
    with 1 show ?thesis
      using ascii_table_digit [of dv "n mod 10"]
      by (auto simp: decimal.simps [of n] is_digit_def)
  qed
qed

lemma decimal_nonempty: "decimal k \<noteq> []"
  by (subst decimal.simps) simp

lemma py_int_snoc:
  "py_int dv (ds @ [c]) = 10 * py_int dv ds + (case dv c of Some v \<Rightarrow> int v | None \<Rightarrow> 0)"
  by (simp add: py_int_def)

lemma py_int_decimal: "ascii_table dv \<Longrightarrow> py_int dv (decimal k) = int k"
proof (induction k rule: decimal.induct)
  case (1 n)
  show ?case
  proof (cases "n < 10")
    case True
    with 1 show ?thesis
      by (simp add: decimal.simps [of n] py_int_def ascii_table_digit)
  next
    case False
    with 1 have "py_int dv (decimal (n div 10)) = int (n div 10)" by simp
    moreover have "int n = 10 * int (n div 10) + int (n mod 10)"
      by (simp add: zdiv_int zmod_int)
    ultimately show ?thesis
      using False 1(2) ascii_table_digit [of dv "n mod 10"]
      by (simp add: decimal.simps [of n] py_int_snoc)
  qed
qed

lemma png_pattern_png_name:
  assumes "ascii_table dv"
  shows "png_pattern dv (png_name k) = Some (decimal k)"
proof -
  have d: "\<And>c. c \<in> set (decimal k) \<Longrightarrow> is_digit dv c"
    using assms by (rule decimal_digits)
  have t: "takeWhile (is_digit dv) (ustr ''.png'') = []"
    "dropWhile (is_digit dv) (ustr ''.png'') = ustr ''.png''"
    using ascii_table_dot [OF assms] by (simp_all add: ustr_def)
  show ?thesis
    using d t decimal_nonempty [of k]
    by (simp add: png_pattern_def png_name_def literal_end_def)
qed

lemma png_pattern_group:
  "png_pattern dv s = Some ds \<Longrightarrow> ds = takeWhile (is_digit dv) s"
  by (auto simp: png_pattern_def Let_def split: if_splits)

lemma collect_slides_names:
  "collect_slides dv d = map (slide_of_name dv) (map fname (filter (png_file dv) d))"
proof (induction d)
  case Nil
  then show ?case by (simp add: collect_slides_def)
next
  case (Cons f d)
  then show ?case
    by (auto simp: collect_slides_def png_slide_def png_file_def slide_of_name_def
        dest: png_pattern_group split: option.splits)
qed

lemma slide_of_png_name:
  "ascii_table dv \<Longrightarrow> slide_of_name dv (png_name k) = numbered_slide k"
  using png_pattern_group [OF png_pattern_png_name, of dv k] py_int_decimal [of dv k]
  by (simp add: slide_of_name_def numbered_slide_def)

text \<open>
  Claim C3. If the names of the regular files of the directory that match the image
  pattern are exactly \<open>1.png\<close>, ..., \<open>N.png\<close>, listed by the directory in any order and among
  any other entries, then \<open>scan_slides\<close> returns the slides of \<open>1.png\<close>, ..., \<open>N.png\<close> in this
  order: \<open>N\<close> slides, their numeric keys \<open>1\<close>, ..., \<open>N\<close> strictly ascending, and nothing of
  the entries that do not match.
\<close>

theorem C3_numbered_slides_sorted:
  assumes "ascii_table dv"
    and "mset (map fname (filter (png_file dv) d)) = mset (map png_name [1..<Suc N])"
  shows "\<exists>c. scan_slides dv (Directory d) = Inr c
           \<and> cat_slides c = map numbered_slide [1..<Suc N]
           \<and> map filename (cat_slides c) = map png_name [1..<Suc N]
           \<and> map num (cat_slides c) = map int [1..<Suc N]
           \<and> length (cat_slides c) = N \<and> cat_total c = N
           \<and> sorted_wrt (<) (map num (cat_slides c))"
proof -
  let ?xs = "collect_slides dv d"
  let ?ys = "map numbered_slide [1..<Suc N]"
  have "mset ?xs = image_mset (slide_of_name dv) (mset (map fname (filter (png_file dv) d)))"
    by (simp add: collect_slides_names multiset.map_comp)
  also have "\<dots> = image_mset (slide_of_name dv) (mset (map png_name [1..<Suc N]))"
    by (simp only: assms(2))
  also have "\<dots> = mset ?ys"
    by (simp add: slide_of_png_name [OF assms(1)] multiset.map_comp comp_def)
  finally have m: "mset ?xs = mset ?ys" .
  then have "set ?xs = set ?ys" by (rule mset_eq_setD)
  then have inj: "inj_on num (set ?xs)"
    by (auto simp: inj_on_def numbered_slide_def)
  have nums: "map num ?ys = map int [1..<Suc N]"
    by (simp add: numbered_slide_def comp_def)
  have names: "map filename ?ys = map png_name [1..<Suc N]"
    by (simp add: numbered_slide_def comp_def)
  have srt: "sorted_wrt (<) (map int [1..<Suc N])"
    by (simp add: sorted_wrt_map sorted_wrt_upt del: upt_Suc)
  then have "sorted (map num ?ys)"
    unfolding nums by (rule strict_sorted_imp_sorted)
  with m inj have "sort_key num ?xs = ?ys"
    by (rule sort_key_inj_key_eq)
  let ?c = "\<lparr>cat_slides = ?ys, cat_videos = scan_videos dv d, cat_total = N\<rparr>"
  have sel: "cat_slides ?c = ?ys" "cat_total ?c = N"
    by simp_all
  have len: "length ?ys = N"
    by simp
  from \<open>sort_key num ?xs = ?ys\<close> have scan: "scan_slides dv (Directory d) = Inr ?c"
    by (simp add: scan_slides_def sort_slides_def Let_def del: upt_Suc)
  show ?thesis
  proof (intro exI conjI)
    show "scan_slides dv (Directory d) = Inr ?c" by (rule scan)
    show "cat_slides ?c = ?ys" by (rule sel)
    show "map filename (cat_slides ?c) = map png_name [1..<Suc N]"
      unfolding sel by (rule names)
    show "map num (cat_slides ?c) = map int [1..<Suc N]"
      unfolding sel by (rule nums)
    show "length (cat_slides ?c) = N"
      unfolding sel by (rule len)
    show "cat_total ?c = N" by (rule sel)
    show "sorted_wrt (<) (map num (cat_slides ?c))"
      unfolding sel nums by (rule srt)
  qed
qed

lemma ascii_table_ascii_only: "ascii_table ascii_only"
  by (simp add: ascii_table_def)

lemma lexicographic_dir_matching: "map fname (filter (png_file ascii_only) lexicographic_dir)
   = [ustr ''1.png'', ustr ''10.png'', ustr ''2.png'', ustr ''3.png'',
            ustr ''4.png'', ustr ''5.png'', ustr ''6.png'', ustr ''7.png'',
            ustr ''8.png'', ustr ''9.png'']"
  by (simp add: lexicographic_dir_def files_def png_file_def is_file_def png_pattern_def
      is_digit_def ascii_only_def literal_end_def ustr_def cover_name_def)

lemma png_names_upto_10: "map png_name [1..<Suc 10]
   = [ustr ''1.png'', ustr ''2.png'', ustr ''3.png'',
            ustr ''4.png'', ustr ''5.png'', ustr ''6.png'', ustr ''7.png'',
            ustr ''8.png'', ustr ''9.png'', ustr ''10.png'']"
  by (simp add: png_name_def decimal.simps ustr_def upt_rec)

lemma lexicographic_dir_numbered: "mset (map fname (filter (png_file ascii_only) lexicographic_dir)) = mset (map png_name [1..<Suc 10])"
  unfolding lexicographic_dir_matching png_names_upto_10 by (simp add: ustr_def)

theorem C3_numbered_slides_sorted_witness:
  "ascii_table ascii_only
   \<and> mset (map fname (filter (png_file ascii_only) lexicographic_dir)) = mset (map png_name [1..<Suc 10])
   \<and> (\<exists>c. scan_slides ascii_only (Directory lexicographic_dir) = Inr c
         \<and> map num (cat_slides c) = [1, 2, 3, 4, 5, 6, 7, 8, 9, 10]
         \<and> length (cat_slides c) = 10)"
proof -
  have n: "map int [1..<Suc 10] = [1, 2, 3, 4, 5, 6, 7, 8, 9, 10]"
    by (simp add: upt_rec)
  from C3_numbered_slides_sorted [OF ascii_table_ascii_only lexicographic_dir_numbered] ascii_table_ascii_only lexicographic_dir_numbered n
  show ?thesis by (auto simp del: upt_Suc)
qed

section \<open>The scanner: equal numeric keys\<close>

lemma ascii_table_is_digit:
  "ascii_table dv \<Longrightarrow> c < 128 \<Longrightarrow> is_digit dv c = (48 \<le> c \<and> c \<le> 57)"
  by (simp add: ascii_table_def ascii_only_def is_digit_def)

lemma ascii_table_value:
  "ascii_table dv \<Longrightarrow> c < 128 \<Longrightarrow> dv c = ascii_only c"
  by (simp add: ascii_table_def)

lemma scan_slides_stable:
  "\<exists>c. scan_slides dv (Directory d) = Inr c
     \<and> mset (cat_slides c) = mset (collect_slides dv d)
     \<and> (\<forall>k. filter (\<lambda>s. num s = k) (cat_slides c) = filter (\<lambda>s. num s = k) (collect_slides dv d))"
  by (simp add: scan_slides_def sort_slides_def Let_def sort_key_stable)

lemmas scan_defs =
  files_def scan_slides_def collect_slides_def sort_slides_def png_slide_def png_pattern_def
  py_int_def is_file_def literal_end_def ustr_def

text \<open>
  Claim C10. The names \<open>2.png\<close> and \<open>02.png\<close> both match the image pattern and both give a
  slide with the numeric key 2. The sort removes and adds nothing, and for every key the
  slides with that key come in the sorted list in the order in which the directory listed
  them: with \<open>02.png\<close> listed before \<open>2.png\<close> it stays before, and the other way round.
\<close>

theorem C10_equal_keys_keep_order:
  assumes "ascii_table dv"
  shows "png_slide dv \<lparr>fname = ustr ''2.png'', fkind = RegularFile\<rparr>
           = Some \<lparr>num = 2, filename = ustr ''2.png'', path = ustr ''2.png''\<rparr>
     \<and> png_slide dv \<lparr>fname = ustr ''02.png'', fkind = RegularFile\<rparr>
           = Some \<lparr>num = 2, filename = ustr ''02.png'', path = ustr ''02.png''\<rparr>
     \<and> (\<exists>c. scan_slides dv (Directory d) = Inr c
           \<and> mset (cat_slides c) = mset (collect_slides dv d)
           \<and> (\<forall>k. filter (\<lambda>s. num s = k) (cat_slides c)
                   = filter (\<lambda>s. num s = k) (collect_slides dv d)))
     \<and> (\<exists>c. scan_slides dv (Directory leading_zero_dir) = Inr c
           \<and> map filename (cat_slides c) = [ustr ''1.png'', ustr ''02.png'', ustr ''2.png'']
           \<and> map num (cat_slides c) = [1, 2, 2])
     \<and> (\<exists>c. scan_slides dv (Directory leading_zero_dir_rev) = Inr c
           \<and> map filename (cat_slides c) = [ustr ''1.png'', ustr ''2.png'', ustr ''02.png'']
           \<and> map num (cat_slides c) = [1, 2, 2])"
proof -
  note d = ascii_table_is_digit [OF assms] ascii_table_value [OF assms] ascii_only_def
  have a: "png_slide dv \<lparr>fname = ustr ''2.png'', fkind = RegularFile\<rparr>
           = Some \<lparr>num = 2, filename = ustr ''2.png'', path = ustr ''2.png''\<rparr>"
    by (simp add: scan_defs d)
  have b: "png_slide dv \<lparr>fname = ustr ''02.png'', fkind = RegularFile\<rparr>
           = Some \<lparr>num = 2, filename = ustr ''02.png'', path = ustr ''02.png''\<rparr>"
    by (simp add: scan_defs d)
  have c: "png_slide dv \<lparr>fname = ustr ''1.png'', fkind = RegularFile\<rparr>
           = Some \<lparr>num = 1, filename = ustr ''1.png'', path = ustr ''1.png''\<rparr>"
    by (simp add: scan_defs d)
  have e: "\<exists>c. scan_slides dv (Directory leading_zero_dir) = Inr c
           \<and> map filename (cat_slides c) = [ustr ''1.png'', ustr ''02.png'', ustr ''2.png'']
           \<and> map num (cat_slides c) = [1, 2, 2]"
    using a b c
    by (simp add: leading_zero_dir_def files_def scan_slides_def collect_slides_def sort_slides_def)
  have f: "\<exists>c. scan_slides dv (Directory leading_zero_dir_rev) = Inr c
           \<and> map filename (cat_slides c) = [ustr ''1.png'', ustr ''2.png'', ustr ''02.png'']
           \<and> map num (cat_slides c) = [1, 2, 2]"
    using a b c
    by (simp add: leading_zero_dir_rev_def files_def scan_slides_def collect_slides_def sort_slides_def)
  from a b e f scan_slides_stable [of dv d] show ?thesis by blast
qed

theorem C10_equal_keys_keep_order_witness:
  "ascii_table ascii_only
   \<and> (png_slide ascii_only \<lparr>fname = ustr ''2.png'', fkind = RegularFile\<rparr>
           = Some \<lparr>num = 2, filename = ustr ''2.png'', path = ustr ''2.png''\<rparr>
     \<and> png_slide ascii_only \<lparr>fname = ustr ''02.png'', fkind = RegularFile\<rparr>
           = Some \<lparr>num = 2, filename = ustr ''02.png'', path = ustr ''02.png''\<rparr>
     \<and> (\<exists>c. scan_slides ascii_only (Directory leading_zero_dir) = Inr c
           \<and> mset (cat_slides c) = mset (collect_slides ascii_only leading_zero_dir)
           \<and> (\<forall>k. filter (\<lambda>s. num s = k) (cat_slides c)
                   = filter (\<lambda>s. num s = k) (collect_slides ascii_only leading_zero_dir)))
     \<and> (\<exists>c. scan_slides ascii_only (Directory leading_zero_dir) = Inr c
           \<and> map filename (cat_slides c) = [ustr ''1.png'', ustr ''02.png'', ustr ''2.png'']
           \<and> map num (cat_slides c) = [1, 2, 2])
     \<and> (\<exists>c. scan_slides ascii_only (Directory leading_zero_dir_rev) = Inr c
           \<and> map filename (cat_slides c) = [ustr ''1.png'', ustr ''2.png'', ustr ''02.png'']
           \<and> map num (cat_slides c) = [1, 2, 2]))"
  using ascii_table_ascii_only C10_equal_keys_keep_order [OF ascii_table_ascii_only, of leading_zero_dir]
  by (rule conjI)

section \<open>The progress indicator\<close>

text \<open>
  Rounding to 53 bits changes a positive value by at most one part in \<open>2^53\<close>: the exponent
  chosen by \<open>ilog2\<close> is not above the value, and rounding the scaled value to an integer
  moves it by at most one half.
\<close>

lemma pow2_powi: "pow2 e = 2 powi e"
  by (simp add: pow2_def power_int_def field_simps)

lemma pow2_pos: "0 < pow2 e"
  by (simp add: pow2_powi)

lemma bitlen_bounds: "0 < i \<Longrightarrow> 2 ^ (bitlen i - 1) \<le> i \<and> i < 2 ^ bitlen i"
proof (induction i rule: bitlen.induct)
  case (1 i)
  show ?case
  proof (cases "i div 2 \<le> 0")
    case True
    with 1(2) have "i = 1" by linarith
    then show ?thesis
      by (simp add: bitlen.simps [of 1] bitlen.simps [of 0])
  next
    case False
    with 1 have ih: "2 ^ (bitlen (i div 2) - 1) \<le> i div 2" "i div 2 < 2 ^ bitlen (i div 2)"
      by simp_all
    from False have pos: "0 < bitlen (i div 2)"
      by (simp add: bitlen.simps [of "i div 2"])
    have b: "bitlen i = Suc (bitlen (i div 2))"
      using 1(2) by (simp add: bitlen.simps [of i])
    define lo hi :: int where "lo = 2 ^ (bitlen (i div 2) - 1)" and "hi = 2 ^ bitlen (i div 2)"
    from pos have "(2::int) ^ (bitlen i - 1) = 2 * lo"
      unfolding b lo_def by (cases "bitlen (i div 2)") simp_all
    moreover have "(2::int) ^ bitlen i = 2 * hi"
      unfolding b hi_def by simp
    moreover from ih have "lo \<le> i div 2" "i div 2 < hi"
      by (simp_all add: lo_def hi_def)
    ultimately show ?thesis by linarith
  qed
qed

lemma ilog2_le:
  assumes "0 < x"
  shows "pow2 (ilog2 x) \<le> x"
proof -
  obtain p q where pq: "quotient_of x = (p, q)" by (cases "quotient_of x")
  then have q: "0 < q" and x: "x = of_int p / of_int q"
    by (simp_all add: quotient_of_denom_pos quotient_of_div)
  with assms have p: "0 < p"
    by (simp add: zero_less_divide_iff)
  define bp bq where "bp = bitlen p" and "bq = bitlen q"
  let ?e = "int bp - int bq"
  show ?thesis
  proof (cases "pow2 ?e \<le> x")
    case True
    then show ?thesis
      by (simp add: ilog2_def pq bp_def bq_def)
  next
    case False
    then have e: "ilog2 x = ?e - 1"
      by (simp add: ilog2_def pq bp_def bq_def)
    from bitlen_bounds [of p] p have "2 ^ (bp - 1) \<le> p" and bp: "0 < bp"
      by (auto simp: bp_def bitlen.simps [of p])
    then have "(of_int (2 ^ (bp - 1))::rat) \<le> of_int p"
      by (simp only: of_int_le_iff)
    then have lo: "(2::rat) ^ (bp - 1) \<le> of_int p"
      by simp
    from bitlen_bounds [of q] q have "q \<le> 2 ^ bq"
      by (simp add: bq_def)
    then have "(of_int q::rat) \<le> of_int (2 ^ bq)"
      by (simp only: of_int_le_iff)
    then have hi: "of_int q \<le> (2::rat) ^ bq"
      by simp
    from bp have "?e - 1 = int (bp - 1) - int bq"
      by simp
    then have "pow2 (?e - 1) = 2 powi (int (bp - 1) - int bq)"
      by (simp only: pow2_powi)
    also have "\<dots> = 2 ^ (bp - 1) / 2 ^ bq"
      by (simp add: power_int_diff)
    also have "\<dots> \<le> of_int p / of_int q"
      using lo hi q p by (intro frac_le) simp_all
    finally have "pow2 (?e - 1) \<le> x" by (simp only: x)
    then show ?thesis by (simp only: e)
  qed
qed

lemma round_half_even_error: "\<bar>of_int (round_half_even m) - m\<bar> \<le> 1 / 2"
proof -
  have "of_int \<lfloor>m\<rfloor> \<le> m" "m < of_int \<lfloor>m\<rfloor> + 1"
    by linarith+
  then show ?thesis
    by (auto simp: round_half_even_def Let_def)
qed

lemma to_double_error:
  assumes "0 < x"
  shows "\<bar>to_double x - x\<bar> \<le> x / 2 ^ 53"
proof -
  define s where "s = pow2 (ilog2 x - 52)"
  have s: "0 < s" by (simp add: s_def pow2_pos)
  have "s = pow2 (ilog2 x) / 2 ^ 52"
    by (simp add: s_def pow2_powi power_int_diff)
  with ilog2_le [OF assms] have sx: "s \<le> x / 2 ^ 52"
    by (simp add: divide_right_mono)
  define r :: rat where "r = of_int (round_half_even (x / s))"
  have td: "to_double x = r * s"
    using assms by (simp add: to_double_def s_def r_def)
  have "x = (x / s) * s"
    using s by simp
  then have "to_double x - x = (r - x / s) * s"
    unfolding td by (simp add: left_diff_distrib)
  then have "\<bar>to_double x - x\<bar> = \<bar>r - x / s\<bar> * s"
    using s by (simp add: abs_mult)
  also have "\<dots> \<le> (1 / 2) * s"
    using s round_half_even_error [of "x / s"] unfolding r_def
    by (intro mult_right_mono) simp_all
  also have "\<dots> \<le> (1 / 2) * (x / 2 ^ 52)"
    using sx by simp
  finally show ?thesis by simp
qed

lemma progress_error:
  assumes "0 \<le> cur" and "cur < int len"
  shows "\<exists>w. progress cur len = Some w
     \<and> \<bar>w - (of_int (cur + 1) / of_nat len) * 100\<bar>
          \<le> (of_int (cur + 1) / of_nat len) * 100 / 2 ^ 51"
proof -
  define q :: rat where "q = of_int (cur + 1) / of_nat len"
  define a where "a = to_double q"
  define b where "b = to_double (a * 100)"
  define u :: rat where "u = 1 / 2 ^ 53"
  define t where "t = q * u"
  from assms have len: "len \<noteq> 0" and q: "0 < q"
    by (auto simp: q_def)
  have u: "0 < u" "u < 1"
    by (simp_all add: u_def)
  have t: "0 < t" "t < q"
    using q u by (simp_all add: t_def)
  from to_double_error [OF q] have ea: "\<bar>a - q\<bar> \<le> t"
    by (simp add: a_def u_def t_def)
  with t have a: "0 < a" "a \<le> 2 * q"
    by linarith+
  from a(2) u(1) have "a * u \<le> (2 * q) * u"
    by (rule mult_right_mono [OF _ less_imp_le])
  then have au: "a * u \<le> 2 * t"
    by (simp add: t_def)
  from a(1) have "0 < a * 100" by simp
  from to_double_error [OF this] have "\<bar>b - a * 100\<bar> \<le> a * 100 / 2 ^ 53"
    by (simp add: b_def)
  also have "\<dots> = 100 * (a * u)"
    by (simp add: u_def)
  finally have eb: "\<bar>b - a * 100\<bar> \<le> 200 * t"
    using au by linarith
  from ea eb have "\<bar>b - q * 100\<bar> \<le> 300 * t"
    by linarith
  with t(1) have "\<bar>b - q * 100\<bar> \<le> 400 * t"
    by linarith
  also have "400 * t = q * 100 / 2 ^ 51"
    by (simp add: t_def u_def)
  finally have "\<bar>b - q * 100\<bar> \<le> q * 100 / 2 ^ 51" .
  moreover have "progress cur len = Some b"
    using len by (simp add: progress_def b_def a_def q_def)
  ultimately show ?thesis
    unfolding q_def by blast
qed

lemma to_double_two_thirds: "to_double (2 / 3) = 6004799503160661 / 9007199254740992"
  by code_simp

lemma to_double_two_thirds_percent:
  "to_double (6004799503160661 / 9007199254740992 * 100) = 2345624805922133 / 35184372088832"
  by code_simp

lemma progress_example: "progress 1 3 = Some (2345624805922133 / 35184372088832)"
proof -
  have "(of_int (1 + 1) / of_nat 3 :: rat) = 2 / 3" by simp
  then show ?thesis
    by (simp only: progress_def to_double_two_thirds to_double_two_thirds_percent) simp
qed

text \<open>
  Claim C9. For a catalog with at least one slide, after any sequence of events the width
  of the progress bar is the value of \<open>((currentSlide + 1) / slides.length) * 100\<close> at the
  current index, as double arithmetic computes it; that value is within one part in
  \<open>2^51\<close> of the exact quotient times 100. For three slides at index 1 it is the double
  \<open>66.66666666666666\<close> (the rational \<open>2345624805922133 / 2^45\<close>), within \<open>0.05\<close> of
  \<open>66.7\<close>.
\<close>

theorem C9_progress_width:
  assumes "sd \<noteq> []"
  shows "progressWidth (run es (new_player sd vd))
           = progress (currentSlide (run es (new_player sd vd))) (length sd)
     \<and> (\<exists>w. progressWidth (run es (new_player sd vd)) = Some w
           \<and> \<bar>w - of_int (currentSlide (run es (new_player sd vd)) + 1) / of_nat (length sd) * 100\<bar>
               \<le> of_int (currentSlide (run es (new_player sd vd)) + 1) / of_nat (length sd) * 100
                   / 2 ^ 51)
     \<and> progress 1 3 = Some (2345624805922133 / 35184372088832)
     \<and> \<bar>(2345624805922133 / 35184372088832 :: rat) - 667 / 10\<bar> \<le> 1 / 20"
proof -
  let ?p = "run es (new_player sd vd)"
  from new_player_consistent [OF assms, of vd]
  have init: "ui_consistent (new_player sd vd)" "slides (new_player sd vd) = sd"
    by simp_all
  from run_consistent [OF init(1), of es] init(2)
  have inv: "ui_consistent ?p" "slides ?p = sd"
    by simp_all
  then have w: "progressWidth ?p = progress (currentSlide ?p) (length sd)"
    and rng: "0 \<le> currentSlide ?p" "currentSlide ?p < int (length sd)"
    by (auto simp: ui_consistent_def in_range_def)
  from progress_error [OF rng] w
  have "\<exists>w. progressWidth ?p = Some w
      \<and> \<bar>w - of_int (currentSlide ?p + 1) / of_nat (length sd) * 100\<bar>
          \<le> of_int (currentSlide ?p + 1) / of_nat (length sd) * 100 / 2 ^ 51"
    by simp
  moreover have "\<bar>(2345624805922133 / 35184372088832 :: rat) - 667 / 10\<bar> \<le> 1 / 20"
    by simp
  ultimately show ?thesis
    using w progress_example by blast
qed

theorem C9_progress_width_witness:
  "[ustr ''1.png'', ustr ''2.png'', ustr ''3.png''] \<noteq> []
   \<and> currentSlide (run [Next] example_player) = 1
   \<and> progressWidth (run [Next] example_player) = Some (2345624805922133 / 35184372088832)
   \<and> \<bar>(2345624805922133 / 35184372088832 :: rat) - 667 / 10\<bar> \<le> 1 / 20"
proof -
  let ?sd = "[ustr ''1.png'', ustr ''2.png'', ustr ''3.png'']"
  let ?vd = "[ustr ''1'' \<mapsto> cover_name]"
  have ne: "?sd \<noteq> []" by simp
  have a: "currentSlide (run [Next] (new_player ?sd ?vd)) = 1"
    by (simp add: example_defs player_defs)
  have l: "length ?sd = 3" by simp
  note c9 = C9_progress_width [OF ne, of "[Next]" ?vd]
  from c9 have "progressWidth (run [Next] (new_player ?sd ?vd)) = progress 1 3"
    unfolding a l by (rule conjunct1)
  moreover from c9 have "progress 1 3 = Some (2345624805922133 / 35184372088832)"
    "\<bar>(2345624805922133 / 35184372088832 :: rat) - 667 / 10\<bar> \<le> 1 / 20"
    by blast+
  ultimately show ?thesis
    using ne a unfolding example_player_def by (simp del: run.simps)
qed

end
